theory Spec2Isabelle
  imports Main
begin

section \<open>Character classes of the pattern\<close>

definition is_space :: "char \<Rightarrow> bool" where
  "is_space c =
     (let n = (of_char c :: nat)
      in (9 \<le> n \<and> n \<le> 13) \<or> (28 \<le> n \<and> n \<le> 32) \<or> n = 133 \<or> n = 160)"

definition non_space :: "char \<Rightarrow> bool" where
  "non_space c = (\<not> is_space c)"

definition is_digit :: "char \<Rightarrow> bool" where
  "is_digit c = (let n = (of_char c :: nat) in 48 \<le> n \<and> n \<le> 57)"

definition any_char :: "char \<Rightarrow> bool" where
  "any_char c = (c \<noteq> CHR 0x0A)"

section \<open>Backtracking matcher\<close>

fun first_some :: "('a \<Rightarrow> 'b option) \<Rightarrow> 'a list \<Rightarrow> 'b option" where
  "first_some f [] = None"
| "first_some f (x # xs) = (case f x of Some r \<Rightarrow> Some r | None \<Rightarrow> first_some f xs)"

definition count :: "(char \<Rightarrow> bool) \<Rightarrow> string \<Rightarrow> nat" where
  "count P inp = length (takeWhile P inp)"

definition lit :: "string \<Rightarrow> string \<Rightarrow> (string \<Rightarrow> 'a option) \<Rightarrow> 'a option" where
  "lit s inp k = (if take (length s) inp = s then k (drop (length s) inp) else None)"

definition max_repeat :: "nat \<Rightarrow> (char \<Rightarrow> bool) \<Rightarrow> string \<Rightarrow> (string \<Rightarrow> string \<Rightarrow> 'a option) \<Rightarrow> 'a option" where
  "max_repeat lo P inp k =
     first_some (\<lambda>n. k (take n inp) (drop n inp)) (rev [lo ..< Suc (count P inp)])"

definition min_repeat :: "nat \<Rightarrow> (char \<Rightarrow> bool) \<Rightarrow> string \<Rightarrow> (string \<Rightarrow> string \<Rightarrow> 'a option) \<Rightarrow> 'a option" where
  "min_repeat lo P inp k =
     first_some (\<lambda>n. k (take n inp) (drop n inp)) [lo ..< Suc (count P inp)]"

definition exactly :: "nat \<Rightarrow> (char \<Rightarrow> bool) \<Rightarrow> string \<Rightarrow> (string \<Rightarrow> string \<Rightarrow> 'a option) \<Rightarrow> 'a option" where
  "exactly n P inp k =
     (if n \<le> count P (take n inp) then k (take n inp) (drop n inp) else None)"

definition alt :: "'a option \<Rightarrow> 'a option \<Rightarrow> 'a option" where
  "alt a b = (case a of Some r \<Rightarrow> Some r | None \<Rightarrow> b)"

definition dq :: char where
  "dq = CHR 0x22"

definition match_log_line :: "string \<Rightarrow> (string \<times> string \<times> string \<times> string \<times> string) option" where
  "match_log_line line =
     max_repeat 1 non_space line (\<lambda>g1 r1.
     lit '' - - ['' r1 (\<lambda>r2.
     min_repeat 0 any_char r2 (\<lambda>g2 r3.
     lit (''] '' @ [dq]) r3 (\<lambda>r4.
     min_repeat 0 any_char r4 (\<lambda>g3 r5.
     lit ([dq] @ '' '') r5 (\<lambda>r6.
     exactly 3 is_digit r6 (\<lambda>g4 r7.
     lit '' '' r7 (\<lambda>r8.
     alt (max_repeat 1 is_digit r8 (\<lambda>g5 r9. Some (g1, g2, g3, g4, g5)))
         (lit ''-'' r8 (\<lambda>r9. Some (g1, g2, g3, g4, ''-'')))))))))))"


section \<open>Python values\<close>

datatype pyval = PStr string | PInt int

type_synonym pydict = "(string \<times> pyval) list"

datatype py_error = ValueError | KeyError string | JSONDecodeError | DataError | UndefinedTable

definition digit_val :: "char \<Rightarrow> int" where
  "digit_val c = int (of_char c) - 48"

definition py_int :: "string \<Rightarrow> py_error + int" where
  "py_int s =
     (if s \<noteq> [] \<and> list_all is_digit s
      then Inr (foldl (\<lambda>a c. 10 * a + digit_val c) 0 s)
      else Inl ValueError)"

section \<open>converterData.py: the line parser\<close>

definition parse_log_line :: "string \<Rightarrow> py_error + pydict option" where
  "parse_log_line line =
     (case match_log_line line of
        Some (host, timestamp, request, g4, g5) \<Rightarrow>
          (case py_int g4 of
             Inl e \<Rightarrow> Inl e
           | Inr http_reply_code \<Rightarrow>
               (case (if g5 = ''-'' then Inr 0 else py_int g5) of
                  Inl e \<Rightarrow> Inl e
                | Inr bytes_reply \<Rightarrow>
                   Inr (Some [(''host'', PStr host),
                              (''timestamp'', PStr timestamp),
                              (''request'', PStr request),
                              (''http_reply_code'', PInt http_reply_code),
                              (''bytes'', PInt bytes_reply)])))
      | None \<Rightarrow> Inr None)"


definition ingest_line :: "pydict list \<Rightarrow> string \<Rightarrow> py_error + pydict list" where
  "ingest_line parsed_data line =
     (case parse_log_line line of
        Inl e \<Rightarrow> Inl e
      | Inr None \<Rightarrow> Inr parsed_data
      | Inr (Some data) \<Rightarrow> if data \<noteq> [] then Inr (parsed_data @ [data]) else Inr parsed_data)"

fun ingest :: "pydict list \<Rightarrow> string list \<Rightarrow> py_error + pydict list" where
  "ingest parsed_data [] = Inr parsed_data"
| "ingest parsed_data (line # lines) =
     (case ingest_line parsed_data line of
        Inl e \<Rightarrow> Inl e
      | Inr parsed_data' \<Rightarrow> ingest parsed_data' lines)"

section \<open>The documented shape of a log line\<close>

text \<open>
  The shape the specification gives for an accepted line: a host of one or more
  non-whitespace characters, the marker \<^verbatim>\<open> - - \<close>, a bracketed timestamp, a quoted
  request, three digits, and a byte token that is digits or a dash, at the start of the
  line and in this order; anything may follow.
\<close>

definition conforms :: "string \<Rightarrow> bool" where
  "conforms line \<longleftrightarrow>
     (\<exists>host ts req st bt rest.
        line = host @ '' - - ['' @ ts @ ''] '' @ [dq] @ req @ [dq] @ '' '' @ st @ '' '' @ bt @ rest \<and>
        host \<noteq> [] \<and> (\<forall>c\<in>set host. non_space c) \<and>
        (\<forall>c\<in>set ts. any_char c) \<and>
        (\<forall>c\<in>set req. any_char c) \<and>
        length st = 3 \<and> (\<forall>c\<in>set st. is_digit c) \<and>
        (bt = ''-'' \<or> (bt \<noteq> [] \<and> (\<forall>c\<in>set bt. is_digit c))))"


definition group5 :: "string \<Rightarrow> string option" where
  "group5 line = map_option (\<lambda>(g1, g2, g3, g4, g5). g5) (match_log_line line)"

section \<open>The stages of the pattern, named for the proofs\<close>

definition bytes_group :: "string \<Rightarrow> string option" where
  "bytes_group r8 =
     alt (max_repeat 1 is_digit r8 (\<lambda>g5 r9. Some g5)) (lit ''-'' r8 (\<lambda>r9. Some ''-''))"

definition status_tail :: "string \<Rightarrow> (string \<times> string) option" where
  "status_tail r5 =
     lit ([dq] @ '' '') r5 (\<lambda>r6.
     exactly 3 is_digit r6 (\<lambda>g4 r7.
     lit '' '' r7 (\<lambda>r8. map_option (Pair g4) (bytes_group r8))))"

definition request_tail :: "string \<Rightarrow> (string \<times> string \<times> string) option" where
  "request_tail r3 =
     lit (''] '' @ [dq]) r3 (\<lambda>r4.
     min_repeat 0 any_char r4 (\<lambda>g3 r5. map_option (Pair g3) (status_tail r5)))"

definition timestamp_tail :: "string \<Rightarrow> (string \<times> string \<times> string \<times> string) option" where
  "timestamp_tail r1 =
     lit '' - - ['' r1 (\<lambda>r2.
     min_repeat 0 any_char r2 (\<lambda>g2 r3. map_option (Pair g2) (request_tail r3)))"

section \<open>Text of integers and of JSON documents\<close>

definition bs :: char where
  "bs = CHR 0x5C"

definition nl :: char where
  "nl = CHR 0x0A"

definition digit_char :: "nat \<Rightarrow> char" where
  "digit_char d = char_of (48 + d)"

fun nat_digits :: "nat \<Rightarrow> string" where
  "nat_digits n =
     (if n < 10 then [digit_char n] else nat_digits (n div 10) @ [digit_char (n mod 10)])"

declare nat_digits.simps [simp del]

definition py_str_int :: "int \<Rightarrow> string" where
  "py_str_int i = (if i < 0 then CHR ''-'' # nat_digits (nat (- i)) else nat_digits (nat i))"

fun py_format :: "pyval \<Rightarrow> string" where
  "py_format (PStr s) = s"
| "py_format (PInt i) = py_str_int i"

definition hex_char :: "nat \<Rightarrow> char" where
  "hex_char d = (if d < 10 then char_of (48 + d) else char_of (87 + d))"

definition json_escape :: "char \<Rightarrow> string" where
  "json_escape c =
     (let n = (of_char c :: nat)
      in if c = dq then [bs, dq]
         else if c = bs then [bs, bs]
         else if n = 8 then [bs, CHR ''b'']
         else if n = 12 then [bs, CHR ''f'']
         else if n = 10 then [bs, CHR ''n'']
         else if n = 13 then [bs, CHR ''r'']
         else if n = 9 then [bs, CHR ''t'']
         else if 32 \<le> n \<and> n \<le> 126 then [c]
         else [bs, CHR ''u'', CHR ''0'', CHR ''0'', hex_char (n div 16), hex_char (n mod 16)])"

definition json_string :: "string \<Rightarrow> string" where
  "json_string s = [dq] @ concat (map json_escape s) @ [dq]"

fun json_value :: "pyval \<Rightarrow> string" where
  "json_value (PStr s) = json_string s"
| "json_value (PInt i) = py_str_int i"

fun join :: "string \<Rightarrow> string list \<Rightarrow> string" where
  "join sep [] = []"
| "join sep [x] = x"
| "join sep (x # y # ys) = x @ sep @ join sep (y # ys)"

definition json_item :: "string \<times> pyval \<Rightarrow> string" where
  "json_item kv = json_string (fst kv) @ '': '' @ json_value (snd kv)"

definition json_dumps :: "pydict \<Rightarrow> string" where
  "json_dumps d = (if d = [] then ''{}'' else ''{'' @ join '', '' (map json_item d) @ ''}'')"

definition json_dict_indent :: "pydict \<Rightarrow> string" where
  "json_dict_indent d =
     (if d = [] then ''{}''
      else ''{'' @ [nl] @ join ('','' @ [nl]) (map (\<lambda>kv. replicate 8 CHR '' '' @ json_item kv) d) @
           [nl] @ replicate 4 CHR '' '' @ ''}'')"

definition json_dump_indent :: "pydict list \<Rightarrow> string" where
  "json_dump_indent ds =
     (if ds = [] then ''[]''
      else ''['' @ [nl] @ join ('','' @ [nl]) (map (\<lambda>d. replicate 4 CHR '' '' @ json_dict_indent d) ds) @
           [nl] @ '']'')"

section \<open>uploadFileDB.py: the fan-out writer\<close>

function sanitize_key :: "string \<Rightarrow> string" where
  "sanitize_key [] = []"
| "sanitize_key (c # cs) =
     (if is_space c then CHR ''_'' # sanitize_key (dropWhile is_space cs)
      else c # sanitize_key cs)"
  by pat_completeness auto
termination
  by (relation "measure length") (auto simp: length_dropWhile_le less_Suc_eq_le)

definition getitem :: "pydict \<Rightarrow> string \<Rightarrow> py_error + pyval" where
  "getitem entry k = (case map_of entry k of None \<Rightarrow> Inl (KeyError k) | Some v \<Rightarrow> Inr v)"

definition unique_key :: "pydict \<Rightarrow> py_error + string" where
  "unique_key entry =
     (case getitem entry ''host'' of
        Inl e \<Rightarrow> Inl e
      | Inr h \<Rightarrow>
          (case getitem entry ''timestamp'' of
             Inl e \<Rightarrow> Inl e
           | Inr t \<Rightarrow> Inr (py_format h @ '':'' @ py_format t)))"

record nasa_logs_row =
  col_id :: int
  col_host :: string
  col_timestamp :: string
  col_request :: string
  col_status :: int
  col_bytes_sent :: int

record nasa_logs =
  rows :: "nasa_logs_row list"
  id_seq :: int

record stores =
  redis_db :: "string \<rightharpoonup> (string \<rightharpoonup> pyval)"
  redis_simple_db :: "string \<rightharpoonup> string"
  memcached_db :: "string \<rightharpoonup> string"
  pg_db :: "nasa_logs option"

definition hset :: "string \<Rightarrow> pydict \<Rightarrow> stores \<Rightarrow> stores" where
  "hset key mapping st =
     st\<lparr>redis_db := (redis_db st)(key \<mapsto>
           fold (\<lambda>(f, v) h. h(f \<mapsto> v)) mapping
                (case redis_db st key of None \<Rightarrow> Map.empty | Some h \<Rightarrow> h))\<rparr>"

definition redis_simple_set :: "string \<Rightarrow> string \<Rightarrow> stores \<Rightarrow> stores" where
  "redis_simple_set key v st = st\<lparr>redis_simple_db := (redis_simple_db st)(key \<mapsto> v)\<rparr>"

definition memcached_set :: "string \<Rightarrow> string \<Rightarrow> stores \<Rightarrow> stores" where
  "memcached_set key v st = st\<lparr>memcached_db := (memcached_db st)(key \<mapsto> v)\<rparr>"

definition pg_text :: "pyval \<Rightarrow> py_error + string" where
  "pg_text v =
     (case v of
        PStr s \<Rightarrow> if CHR 0x00 \<in> set s then Inl ValueError else Inr s
      | PInt i \<Rightarrow> Inr (py_str_int i))"

definition pg_integer :: "pyval \<Rightarrow> py_error + int" where
  "pg_integer v =
     (case v of
        PInt i \<Rightarrow> if - (2 ^ 31) \<le> i \<and> i < 2 ^ 31 then Inr i else Inl DataError
      | PStr s \<Rightarrow> Inl DataError)"

definition insert_row :: "nasa_logs_row \<Rightarrow> nasa_logs \<Rightarrow> nasa_logs" where
  "insert_row r t =
     (let new_id = id_seq t; t' = t\<lparr>id_seq := new_id + 1\<rparr>
      in if \<exists>r'\<in>set (rows t). col_id r' = new_id then t'
         else t'\<lparr>rows := rows t @ [r\<lparr>col_id := new_id\<rparr>]\<rparr>)"

definition execute_insert ::
  "pyval \<times> pyval \<times> pyval \<times> pyval \<times> pyval \<Rightarrow> stores \<Rightarrow> py_error + stores" where
  "execute_insert args st =
     (case args of (a1, a2, a3, a4, a5) \<Rightarrow>
      (case pg_text a1 of Inl e \<Rightarrow> Inl e | Inr h \<Rightarrow>
      (case pg_text a2 of Inl e \<Rightarrow> Inl e | Inr t \<Rightarrow>
      (case pg_text a3 of Inl e \<Rightarrow> Inl e | Inr r \<Rightarrow>
      (case pg_integer a4 of Inl e \<Rightarrow> Inl e | Inr s \<Rightarrow>
      (case pg_integer a5 of Inl e \<Rightarrow> Inl e | Inr b \<Rightarrow>
      (case pg_db st of
         None \<Rightarrow> Inl UndefinedTable
       | Some tab \<Rightarrow>
           Inr (st\<lparr>pg_db := Some (insert_row
                  \<lparr>col_id = 0, col_host = h, col_timestamp = t, col_request = r,
                   col_status = s, col_bytes_sent = b\<rparr> tab)\<rparr>))))))))"

definition insert_args :: "pydict \<Rightarrow> py_error + pyval \<times> pyval \<times> pyval \<times> pyval \<times> pyval" where
  "insert_args entry =
     (case getitem entry ''host'' of Inl e \<Rightarrow> Inl e | Inr a1 \<Rightarrow>
     (case getitem entry ''timestamp'' of Inl e \<Rightarrow> Inl e | Inr a2 \<Rightarrow>
     (case getitem entry ''request'' of Inl e \<Rightarrow> Inl e | Inr a3 \<Rightarrow>
     (case getitem entry ''status'' of Inl e \<Rightarrow> Inl e | Inr a4 \<Rightarrow>
     (case getitem entry ''bytes_sent'' of Inl e \<Rightarrow> Inl e | Inr a5 \<Rightarrow>
        Inr (a1, a2, a3, a4, a5))))))"

definition sanitized_key :: "pydict \<Rightarrow> py_error + string" where
  "sanitized_key entry =
     (case unique_key entry of Inl e \<Rightarrow> Inl e | Inr uk \<Rightarrow> Inr (sanitize_key uk))"

definition load_entry :: "stores \<Rightarrow> pydict \<Rightarrow> py_error option \<times> stores" where
  "load_entry st entry =
     (case sanitized_key entry of
        Inl e \<Rightarrow> (Some e, st)
      | Inr key \<Rightarrow>
          (let entry_json = json_dumps entry;
               st1 = hset key entry st;
               st2 = redis_simple_set key entry_json st1;
               st3 = memcached_set key entry_json st2
           in case insert_args entry of
                Inl e \<Rightarrow> (Some e, st3)
              | Inr args \<Rightarrow>
                  (case execute_insert args st3 of
                     Inl e \<Rightarrow> (Some e, st3)
                   | Inr st4 \<Rightarrow> (None, st4))))"

fun load_entries :: "stores \<Rightarrow> pydict list \<Rightarrow> py_error option \<times> stores" where
  "load_entries st [] = (None, st)"
| "load_entries st (entry # data) =
     (case load_entry st entry of
        (Some e, st') \<Rightarrow> (Some e, st')
      | (None, st') \<Rightarrow> load_entries st' data)"

definition rollback :: "stores \<Rightarrow> stores \<Rightarrow> stores" where
  "rollback st0 st =
     st\<lparr>pg_db := (case (pg_db st0, pg_db st) of
                     (Some t0, Some t) \<Rightarrow> Some (t\<lparr>rows := rows t0\<rparr>)
                   | _ \<Rightarrow> pg_db st0)\<rparr>"

definition load_data :: "stores \<Rightarrow> pydict list \<Rightarrow> py_error option \<times> stores" where
  "load_data st data =
     (case load_entries st data of
        (None, st') \<Rightarrow> (None, st')
      | (Some e, st') \<Rightarrow> (Some e, rollback st st'))"

definition create_pg_table :: "stores \<Rightarrow> stores" where
  "create_pg_table st =
     (case pg_db st of
        None \<Rightarrow> st\<lparr>pg_db := Some \<lparr>rows = [], id_seq = 1\<rparr>\<rparr>
      | Some t \<Rightarrow> st)"

section \<open>Reading the exchange file\<close>

definition json_ws :: "char \<Rightarrow> bool" where
  "json_ws c = (let n = (of_char c :: nat) in n = 32 \<or> n = 9 \<or> n = 10 \<or> n = 13)"

definition skip_ws :: "string \<Rightarrow> string" where
  "skip_ws s = dropWhile json_ws s"

definition hex_val :: "char \<Rightarrow> nat option" where
  "hex_val c =
     (let n = (of_char c :: nat)
      in if 48 \<le> n \<and> n \<le> 57 then Some (n - 48)
         else if 97 \<le> n \<and> n \<le> 102 then Some (n - 87)
         else if 65 \<le> n \<and> n \<le> 70 then Some (n - 55)
         else None)"

definition unescape :: "char \<Rightarrow> char option" where
  "unescape e =
     (if e = dq then Some dq
      else if e = bs then Some bs
      else if e = CHR ''/'' then Some CHR ''/''
      else if e = CHR ''b'' then Some (CHR 0x08)
      else if e = CHR ''f'' then Some (CHR 0x0C)
      else if e = CHR ''n'' then Some (CHR 0x0A)
      else if e = CHR ''r'' then Some (CHR 0x0D)
      else if e = CHR ''t'' then Some (CHR 0x09)
      else None)"

definition cons_result :: "char \<Rightarrow> (string \<times> string) option \<Rightarrow> (string \<times> string) option" where
  "cons_result c r = map_option (\<lambda>(s, rest). (c # s, rest)) r"

fun scan_string :: "string \<Rightarrow> (string \<times> string) option" where
  "scan_string [] = None"
| "scan_string (c # cs) =
     (if c = dq then Some ([], cs)
      else if c = bs then
        (case cs of
           [] \<Rightarrow> None
         | e # cs1 \<Rightarrow>
             if e = CHR ''u'' then
               (case cs1 of
                  h1 # h2 # h3 # h4 # cs2 \<Rightarrow>
                    (case (hex_val h1, hex_val h2, hex_val h3, hex_val h4) of
                       (Some a, Some b, Some x, Some y) \<Rightarrow>
                         if a = 0 \<and> b = 0 then cons_result (char_of (16 * x + y)) (scan_string cs2)
                         else None
                     | _ \<Rightarrow> None)
                | _ \<Rightarrow> None)
             else (case unescape e of
                     None \<Rightarrow> None
                   | Some ch \<Rightarrow> cons_result ch (scan_string cs1)))
      else if (of_char c :: nat) < 32 then None
      else cons_result c (scan_string cs))"

definition scan_nat :: "string \<Rightarrow> (int \<times> string) option" where
  "scan_nat s =
     (case s of
        [] \<Rightarrow> None
      | c # cs \<Rightarrow>
          if c = CHR ''0'' then Some (0, cs)
          else if is_digit c
          then Some (foldl (\<lambda>a c. 10 * a + digit_val c) 0 (takeWhile is_digit s),
                     dropWhile is_digit s)
          else None)"

definition scan_number :: "string \<Rightarrow> (int \<times> string) option" where
  "scan_number s =
     (case s of
        [] \<Rightarrow> None
      | c # cs \<Rightarrow>
          if c = CHR ''-'' then map_option (\<lambda>(n, rest). (- n, rest)) (scan_nat cs)
          else scan_nat s)"

definition scan_value :: "string \<Rightarrow> (pyval \<times> string) option" where
  "scan_value s =
     (case s of
        [] \<Rightarrow> None
      | c # cs \<Rightarrow>
          if c = dq then map_option (\<lambda>(x, rest). (PStr x, rest)) (scan_string cs)
          else map_option (\<lambda>(n, rest). (PInt n, rest)) (scan_number s))"

fun setitem :: "pydict \<Rightarrow> string \<Rightarrow> pyval \<Rightarrow> pydict" where
  "setitem [] k v = [(k, v)]"
| "setitem (p # ps) k v = (if fst p = k then (k, v) # ps else p # setitem ps k v)"

function scan_members :: "pydict \<Rightarrow> string \<Rightarrow> (pydict \<times> string) option" where
  "scan_members acc s =
     (case s of
        [] \<Rightarrow> None
      | c # cs \<Rightarrow>
          if c \<noteq> dq then None
          else
            (case scan_string cs of
               None \<Rightarrow> None
             | Some (key, r1) \<Rightarrow>
                 (case skip_ws r1 of
                    [] \<Rightarrow> None
                  | c2 # r2 \<Rightarrow>
                      if c2 \<noteq> CHR '':'' then None
                      else
                        (case scan_value (skip_ws r2) of
                           None \<Rightarrow> None
                         | Some (v, r3) \<Rightarrow>
                             (case skip_ws r3 of
                                [] \<Rightarrow> None
                              | d # r4 \<Rightarrow>
                                  if d = CHR ''}'' then Some (setitem acc key v, r4)
                                  else if d = CHR '','' \<and> length (skip_ws r4) < length s
                                  then scan_members (setitem acc key v) (skip_ws r4)
                                  else None)))))"
  by pat_completeness auto
termination
  by (relation "measure (\<lambda>(acc, s). length s)") auto

definition scan_object :: "string \<Rightarrow> (pydict \<times> string) option" where
  "scan_object s =
     (case skip_ws s of
        [] \<Rightarrow> None
      | c # cs \<Rightarrow> if c = CHR ''}'' then Some ([], cs) else scan_members [] (c # cs))"

function scan_elements :: "pydict list \<Rightarrow> string \<Rightarrow> (pydict list \<times> string) option" where
  "scan_elements acc s =
     (case s of
        [] \<Rightarrow> None
      | c # cs \<Rightarrow>
          if c \<noteq> CHR ''{'' then None
          else
            (case scan_object cs of
               None \<Rightarrow> None
             | Some (d, r1) \<Rightarrow>
                 (case skip_ws r1 of
                    [] \<Rightarrow> None
                  | e # r2 \<Rightarrow>
                      if e = CHR '']'' then Some (acc @ [d], r2)
                      else if e = CHR '','' \<and> length (skip_ws r2) < length s
                      then scan_elements (acc @ [d]) (skip_ws r2)
                      else None)))"
  by pat_completeness auto
termination
  by (relation "measure (\<lambda>(acc, s). length s)") auto

definition scan_array :: "string \<Rightarrow> (pydict list \<times> string) option" where
  "scan_array s =
     (case skip_ws s of
        [] \<Rightarrow> None
      | c # cs \<Rightarrow> if c = CHR '']'' then Some ([], cs) else scan_elements [] (c # cs))"

definition json_load :: "string \<Rightarrow> py_error + pydict list" where
  "json_load text =
     (case skip_ws text of
        [] \<Rightarrow> Inl JSONDecodeError
      | c # cs \<Rightarrow>
          if c \<noteq> CHR ''['' then Inl JSONDecodeError
          else
            (case scan_array cs of
               None \<Rightarrow> Inl JSONDecodeError
             | Some (data, rest) \<Rightarrow>
                 if skip_ws rest = [] then Inr data else Inl JSONDecodeError))"

declare scan_members.simps [simp del] scan_elements.simps [simp del]



section \<open>Facts about the matcher\<close>

lemma first_some_None_iff: "first_some f xs = None \<longleftrightarrow> (\<forall>x\<in>set xs. f x = None)"
  by (induction xs) (auto split: option.splits)

lemma first_some_Some_iff:
  "first_some f xs = Some r \<longleftrightarrow>
     (\<exists>i<length xs. f (xs ! i) = Some r \<and> (\<forall>j<i. f (xs ! j) = None))"
proof (induction xs)
  case Nil
  show ?case by simp
next
  case (Cons x xs)
  show ?case
  proof (cases "f x")
    case None
    have "(\<exists>i<length (x # xs). f ((x # xs) ! i) = Some r \<and> (\<forall>j<i. f ((x # xs) ! j) = None))
          \<longleftrightarrow> (\<exists>i<length xs. f (xs ! i) = Some r \<and> (\<forall>j<i. f (xs ! j) = None))"
      (is "?L \<longleftrightarrow> ?R")
    proof
      assume ?L
      then obtain i where i: "i < length (x # xs)" "f ((x # xs) ! i) = Some r"
        "\<forall>j<i. f ((x # xs) ! j) = None" by blast
      from i(2) None obtain i' where i': "i = Suc i'" by (cases i) auto
      have "\<forall>j<i'. f (xs ! j) = None"
      proof (intro allI impI)
        fix j assume "j < i'"
        then have "Suc j < i" using i' by simp
        with i(3) have "f ((x # xs) ! Suc j) = None" by blast
        then show "f (xs ! j) = None" by simp
      qed
      with i i' show ?R by auto
    next
      assume ?R
      then obtain i where i: "i < length xs" "f (xs ! i) = Some r" "\<forall>j<i. f (xs ! j) = None"
        by blast
      have "\<forall>j<Suc i. f ((x # xs) ! j) = None"
      proof (intro allI impI)
        fix j assume "j < Suc i"
        then show "f ((x # xs) ! j) = None" using None i(3) by (cases j) auto
      qed
      with i show ?L by (intro exI[of _ "Suc i"]) auto
    qed
    with None Cons show ?thesis by simp
  next
    case (Some a)
    have "(\<exists>i<length (x # xs). f ((x # xs) ! i) = Some r \<and> (\<forall>j<i. f ((x # xs) ! j) = None))
          \<longleftrightarrow> a = r" (is "?L \<longleftrightarrow> _")
    proof
      assume ?L
      then obtain i where i: "f ((x # xs) ! i) = Some r" "\<forall>j<i. f ((x # xs) ! j) = None"
        by blast
      have "i = 0"
      proof (rule ccontr)
        assume "i \<noteq> 0"
        then have "f ((x # xs) ! 0) = None" using i(2) by blast
        with Some show False by simp
      qed
      with i(1) Some show "a = r" by simp
    next
      assume "a = r"
      with Some show ?L by (intro exI[of _ 0]) auto
    qed
    with Some show ?thesis by simp
  qed
qed

lemma first_some_upt_Some_iff:
  "first_some f [lo..<hi] = Some r \<longleftrightarrow>
     (\<exists>n. lo \<le> n \<and> n < hi \<and> f n = Some r \<and> (\<forall>m. lo \<le> m \<and> m < n \<longrightarrow> f m = None))"
  (is "?L \<longleftrightarrow> ?R")
proof
  assume ?L
  then obtain i where i: "i < hi - lo" "f (lo + i) = Some r" "\<forall>j<i. f (lo + j) = None"
    unfolding first_some_Some_iff by auto
  have "\<forall>m. lo \<le> m \<and> m < lo + i \<longrightarrow> f m = None"
  proof (intro allI impI)
    fix m assume m: "lo \<le> m \<and> m < lo + i"
    then have "m - lo < i" by arith
    with i(3) have "f (lo + (m - lo)) = None" by blast
    with m show "f m = None" by simp
  qed
  with i show ?R by (intro exI[of _ "lo + i"]) auto
next
  assume ?R
  then obtain n where n: "lo \<le> n" "n < hi" "f n = Some r"
    "\<forall>m. lo \<le> m \<and> m < n \<longrightarrow> f m = None" by blast
  show ?L unfolding first_some_Some_iff
    using n by (intro exI[of _ "n - lo"]) auto
qed

lemma first_some_rev_upt_Some_iff:
  "first_some f (rev [lo..<hi]) = Some r \<longleftrightarrow>
     (\<exists>n. lo \<le> n \<and> n < hi \<and> f n = Some r \<and> (\<forall>m. n < m \<and> m < hi \<longrightarrow> f m = None))"
  (is "?L \<longleftrightarrow> ?R")
proof
  have idx: "j < hi - lo \<Longrightarrow> rev [lo..<hi] ! j = hi - Suc j" for j
    by (simp add: rev_nth)
  assume ?L
  then obtain i where i: "i < hi - lo" "f (rev [lo..<hi] ! i) = Some r"
      "\<forall>j<i. f (rev [lo..<hi] ! j) = None"
    unfolding first_some_Some_iff by auto
  have "\<forall>m. hi - Suc i < m \<and> m < hi \<longrightarrow> f m = None"
  proof (intro allI impI)
    fix m assume m: "hi - Suc i < m \<and> m < hi"
    then have lt: "hi - Suc m < i" by arith
    then have "hi - Suc m < hi - lo" using i(1) by arith
    from idx[OF this] i(3) lt have "f (hi - Suc (hi - Suc m)) = None" by auto
    moreover have "hi - Suc (hi - Suc m) = m" using m by arith
    ultimately show "f m = None" by simp
  qed
  moreover have "lo \<le> hi - Suc i" "hi - Suc i < hi" using i(1) by auto
  ultimately show ?R using i(2) idx[OF i(1)] by (intro exI[of _ "hi - Suc i"]) auto
next
  have idx: "j < hi - lo \<Longrightarrow> rev [lo..<hi] ! j = hi - Suc j" for j
    by (simp add: rev_nth)
  assume ?R
  then obtain n where n: "lo \<le> n" "n < hi" "f n = Some r"
    "\<forall>m. n < m \<and> m < hi \<longrightarrow> f m = None" by blast
  have a: "hi - Suc n < hi - lo" using n by arith
  have "\<forall>j<hi - Suc n. f (rev [lo..<hi] ! j) = None"
  proof (intro allI impI)
    fix j assume j: "j < hi - Suc n"
    then have "j < hi - lo" using a by arith
    from idx[OF this] have "rev [lo..<hi] ! j = hi - Suc j" .
    moreover have "n < hi - Suc j \<and> hi - Suc j < hi" using j by arith
    ultimately show "f (rev [lo..<hi] ! j) = None" using n(4) by simp
  qed
  moreover have "rev [lo..<hi] ! (hi - Suc n) = n" using idx[OF a] n by simp
  ultimately show ?L unfolding first_some_Some_iff
    using n a by (intro exI[of _ "hi - Suc n"]) auto
qed

lemma min_repeat_Some_iff:
  "min_repeat lo P inp k = Some r \<longleftrightarrow>
     (\<exists>n. lo \<le> n \<and> n \<le> count P inp \<and> k (take n inp) (drop n inp) = Some r \<and>
          (\<forall>m. lo \<le> m \<and> m < n \<longrightarrow> k (take m inp) (drop m inp) = None))"
  unfolding min_repeat_def first_some_upt_Some_iff by (simp only: less_Suc_eq_le)

lemma min_repeat_None_iff:
  "min_repeat lo P inp k = None \<longleftrightarrow>
     (\<forall>n. lo \<le> n \<and> n \<le> count P inp \<longrightarrow> k (take n inp) (drop n inp) = None)"
  unfolding min_repeat_def first_some_None_iff by (auto simp del: upt_Suc)

lemma max_repeat_None_iff:
  "max_repeat lo P inp k = None \<longleftrightarrow>
     (\<forall>n. lo \<le> n \<and> n \<le> count P inp \<longrightarrow> k (take n inp) (drop n inp) = None)"
  unfolding max_repeat_def first_some_None_iff by (auto simp del: upt_Suc)

lemma max_repeat_Some_iff:
  "max_repeat lo P inp k = Some r \<longleftrightarrow>
     (\<exists>n. lo \<le> n \<and> n \<le> count P inp \<and> k (take n inp) (drop n inp) = Some r \<and>
          (\<forall>m. n < m \<and> m \<le> count P inp \<longrightarrow> k (take m inp) (drop m inp) = None))"
  unfolding max_repeat_def first_some_rev_upt_Some_iff by (simp only: less_Suc_eq_le)



lemma map_option_first_some:
  "map_option h (first_some f xs) = first_some (\<lambda>x. map_option h (f x)) xs"
  by (induction xs) (auto split: option.splits)

lemma map_option_lit: "map_option h (lit s inp k) = lit s inp (\<lambda>r. map_option h (k r))"
  by (simp add: lit_def)

lemma map_option_exactly:
  "map_option h (exactly n P inp k) = exactly n P inp (\<lambda>g r. map_option h (k g r))"
  by (simp add: exactly_def)

lemma map_option_min_repeat:
  "map_option h (min_repeat lo P inp k) = min_repeat lo P inp (\<lambda>g r. map_option h (k g r))"
  by (simp add: min_repeat_def map_option_first_some)

lemma map_option_max_repeat:
  "map_option h (max_repeat lo P inp k) = max_repeat lo P inp (\<lambda>g r. map_option h (k g r))"
  by (simp add: max_repeat_def map_option_first_some)

lemma map_option_alt: "map_option h (alt a b) = alt (map_option h a) (map_option h b)"
  by (simp add: alt_def split: option.splits)

lemma match_log_line_staged:
  "match_log_line line =
     max_repeat 1 non_space line (\<lambda>g1 r1. map_option (Pair g1) (timestamp_tail r1))"
  unfolding match_log_line_def timestamp_tail_def request_tail_def status_tail_def bytes_group_def
  by (simp only: map_option_lit map_option_exactly map_option_min_repeat map_option_max_repeat
        map_option_alt option.map)

lemma count_le_iff: "n \<le> count P inp \<longleftrightarrow> n \<le> length inp \<and> (\<forall>c\<in>set (take n inp). P c)"
  unfolding count_def
proof (induction inp arbitrary: n)
  case Nil
  show ?case by simp
next
  case (Cons a inp)
  show ?case
  proof (cases n)
    case 0
    then show ?thesis by simp
  next
    case (Suc m)
    with Cons[of m] show ?thesis by auto
  qed
qed


lemma lit_Some_iff: "lit s inp k = Some r \<longleftrightarrow> (\<exists>rest. inp = s @ rest \<and> k rest = Some r)"
proof -
  have "take (length s) inp = s \<longleftrightarrow> (\<exists>rest. inp = s @ rest)"
    by (metis append_eq_conv_conj append_take_drop_id)
  then show ?thesis
    by (auto simp: lit_def)
qed

lemma lit_None_iff: "lit s inp k = None \<longleftrightarrow> (\<forall>rest. inp = s @ rest \<longrightarrow> k rest = None)"
proof -
  have "take (length s) inp = s \<longleftrightarrow> (\<exists>rest. inp = s @ rest)"
    by (metis append_eq_conv_conj append_take_drop_id)
  then show ?thesis
    by (auto simp: lit_def)
qed

lemma exactly_Some_iff:
  "exactly n P inp k = Some r \<longleftrightarrow>
     (\<exists>g rest. inp = g @ rest \<and> length g = n \<and> (\<forall>c\<in>set g. P c) \<and> k g rest = Some r)"
  (is "?L \<longleftrightarrow> ?R")
proof
  assume ?L
  then have a: "n \<le> count P (take n inp)" and b: "k (take n inp) (drop n inp) = Some r"
    by (auto simp: exactly_def split: if_splits)
  from a have "n \<le> length inp" "\<forall>c\<in>set (take n inp). P c"
    by (auto simp: count_le_iff)
  with b show ?R
    by (intro exI[of _ "take n inp"] exI[of _ "drop n inp"]) auto
next
  assume ?R
  then obtain g rest where g: "inp = g @ rest" "length g = n" "\<forall>c\<in>set g. P c" "k g rest = Some r"
    by blast
  then have "n \<le> count P (take n inp)" by (simp add: count_le_iff)
  with g show ?L by (simp add: exactly_def)
qed

lemma exactly_None_iff:
  "exactly n P inp k = None \<longleftrightarrow>
     (\<forall>g rest. inp = g @ rest \<and> length g = n \<and> (\<forall>c\<in>set g. P c) \<longrightarrow> k g rest = None)"
  (is "?L \<longleftrightarrow> ?R")
proof
  assume l: ?L
  show ?R
  proof (intro allI impI)
    fix g rest assume g: "inp = g @ rest \<and> length g = n \<and> (\<forall>c\<in>set g. P c)"
    then have "n \<le> count P (take n inp)" by (simp add: count_le_iff)
    with l g show "k g rest = None" by (simp add: exactly_def)
  qed
next
  assume r: ?R
  show ?L
  proof (cases "n \<le> count P (take n inp)")
    case True
    then have "n \<le> length inp" "\<forall>c\<in>set (take n inp). P c" by (auto simp: count_le_iff)
    then have "inp = take n inp @ drop n inp \<and> length (take n inp) = n \<and> (\<forall>c\<in>set (take n inp). P c)"
      by simp
    with r have "k (take n inp) (drop n inp) = None" by blast
    then show ?thesis by (simp add: exactly_def)
  next
    case False
    then show ?thesis by (simp add: exactly_def)
  qed
qed

lemma bytes_group_eq:
  "bytes_group r8 =
     (if takeWhile is_digit r8 \<noteq> [] then Some (takeWhile is_digit r8)
      else if take 1 r8 = ''-'' then Some ''-'' else None)"
proof (cases "takeWhile is_digit r8 = []")
  case True
  then have "count is_digit r8 = 0" by (simp add: count_def)
  then have "max_repeat 1 is_digit r8 (\<lambda>g5 r9. Some g5) = None"
    by (simp add: max_repeat_None_iff)
  with True show ?thesis by (simp add: bytes_group_def alt_def lit_def)
next
  case False
  then have c: "1 \<le> count is_digit r8" by (cases "takeWhile is_digit r8") (auto simp: count_def)
  have "take (count is_digit r8) r8 = takeWhile is_digit r8"
    unfolding count_def by (rule takeWhile_eq_take[symmetric])
  with c have "max_repeat 1 is_digit r8 (\<lambda>g5 r9. Some g5) = Some (takeWhile is_digit r8)"
    unfolding max_repeat_Some_iff by (intro exI[of _ "count is_digit r8"]) auto
  with False show ?thesis by (simp add: bytes_group_def alt_def)
qed








lemma request_tail_Some_iff:
  "request_tail r3 = Some (g3, g4, g5) \<longleftrightarrow>
     (\<exists>r4 n. r3 = [CHR '']'', CHR '' '', dq] @ r4 \<and> n \<le> count any_char r4 \<and>
        g3 = take n r4 \<and> status_tail (drop n r4) = Some (g4, g5) \<and>
        (\<forall>m<n. status_tail (drop m r4) = None))"
  unfolding request_tail_def lit_Some_iff min_repeat_Some_iff by auto

lemma request_tail_None_iff:
  "request_tail r3 = None \<longleftrightarrow>
     (\<forall>r4 n. r3 = [CHR '']'', CHR '' '', dq] @ r4 \<and> n \<le> count any_char r4 \<longrightarrow>
        status_tail (drop n r4) = None)"
  unfolding request_tail_def lit_None_iff min_repeat_None_iff by auto



lemma timestamp_tail_Some_iff:
  "timestamp_tail r1 = Some (g2, g3, g4, g5) \<longleftrightarrow>
     (\<exists>r2 n. r1 = '' - - ['' @ r2 \<and> n \<le> count any_char r2 \<and>
        g2 = take n r2 \<and> request_tail (drop n r2) = Some (g3, g4, g5) \<and>
        (\<forall>m<n. request_tail (drop m r2) = None))"
  unfolding timestamp_tail_def lit_Some_iff min_repeat_Some_iff by auto

lemma timestamp_tail_None_iff:
  "timestamp_tail r1 = None \<longleftrightarrow>
     (\<forall>r2 n. r1 = '' - - ['' @ r2 \<and> n \<le> count any_char r2 \<longrightarrow>
        request_tail (drop n r2) = None)"
  unfolding timestamp_tail_def lit_None_iff min_repeat_None_iff by auto




lemma timestamp_tail_Some_prefix:
  assumes "timestamp_tail r1 \<noteq> None"
  shows "\<exists>r2. r1 = '' - - ['' @ r2"
proof -
  from assms obtain g2 g3 g4 g5 where "timestamp_tail r1 = Some (g2, g3, g4, g5)" by auto
  then show ?thesis unfolding timestamp_tail_Some_iff by blast
qed

lemma timestamp_tail_non_space:
  assumes "m < count non_space line"
  shows "timestamp_tail (drop m line) = None"
proof (rule ccontr)
  assume "timestamp_tail (drop m line) \<noteq> None"
  from timestamp_tail_Some_prefix[OF this] obtain r2 where r2: "drop m line = '' - - ['' @ r2"
    by blast
  from assms have "Suc m \<le> count non_space line" by simp
  then have len: "Suc m \<le> length line" and all: "\<forall>c\<in>set (take (Suc m) line). non_space c"
    using count_le_iff[of "Suc m" non_space line] by blast+
  from len have "line ! m \<in> set (take (Suc m) line)"
    by (simp add: take_Suc_conv_app_nth)
  with all have "non_space (line ! m)" by blast
  moreover from len r2 have "line ! m = CHR '' ''"
    using hd_drop_conv_nth[of m line] by simp
  ultimately show False by (simp add: non_space_def is_space_def)
qed

lemma match_log_line_eq:
  "match_log_line line =
     (if 1 \<le> count non_space line
      then map_option (Pair (takeWhile non_space line)) (timestamp_tail (dropWhile non_space line))
      else None)"
proof -
  let ?c = "count non_space line"
  let ?k = "\<lambda>g1 r1. map_option (Pair g1) (timestamp_tail r1)"
  have tk: "take ?c line = takeWhile non_space line"
    unfolding count_def by (rule takeWhile_eq_take[symmetric])
  have dr: "drop ?c line = dropWhile non_space line"
    unfolding count_def by (rule dropWhile_eq_drop[symmetric])
  show ?thesis
  proof (cases "1 \<le> ?c")
    case False
    then have "max_repeat 1 non_space line ?k = None"
      unfolding max_repeat_None_iff by auto
    with False show ?thesis by (simp add: match_log_line_staged)
  next
    case True
    show ?thesis
    proof (cases "timestamp_tail (drop ?c line)")
      case None
      have "\<forall>n. 1 \<le> n \<and> n \<le> ?c \<longrightarrow> ?k (take n line) (drop n line) = None"
      proof (intro allI impI)
        fix n assume n: "1 \<le> n \<and> n \<le> ?c"
        show "?k (take n line) (drop n line) = None"
        proof (cases "n = ?c")
          case True
          with None show ?thesis by simp
        next
          case False
          with n have "n < ?c" by simp
          from timestamp_tail_non_space[OF this] show ?thesis by simp
        qed
      qed
      then have "max_repeat 1 non_space line ?k = None"
        unfolding max_repeat_None_iff by blast
      with True None dr show ?thesis by (simp add: match_log_line_staged)
    next
      case (Some r)
      have "max_repeat 1 non_space line ?k = Some (take ?c line, r)"
        unfolding max_repeat_Some_iff using True Some
        by (intro exI[of _ ?c]) auto
      with True Some tk dr show ?thesis by (simp add: match_log_line_staged)
    qed
  qed
qed


lemma bytes_group_shape:
  assumes "bytes_group s = Some g5"
  shows "\<exists>rest. s = g5 @ rest \<and> (g5 = ''-'' \<or> (g5 \<noteq> [] \<and> (\<forall>c\<in>set g5. is_digit c)))"
proof (cases "takeWhile is_digit s = []")
  case True
  with assms have "take 1 s = ''-''" "g5 = ''-''" by (auto simp: bytes_group_eq split: if_splits)
  then obtain s' where "s = CHR ''-'' # s'" by (cases s) auto
  with \<open>g5 = ''-''\<close> show ?thesis by simp
next
  case False
  with assms have g5: "g5 = takeWhile is_digit s" by (simp add: bytes_group_eq)
  have "s = takeWhile is_digit s @ dropWhile is_digit s" by simp
  moreover have "\<forall>c\<in>set (takeWhile is_digit s). is_digit c" by (auto dest: set_takeWhileD)
  ultimately show ?thesis using g5 False by blast
qed

lemma status_tail_Some_iff:
  "status_tail r5 = Some (g4, g5) \<longleftrightarrow>
     (\<exists>r8. r5 = [dq, CHR '' ''] @ g4 @ '' '' @ r8 \<and> length g4 = 3 \<and>
           (\<forall>c\<in>set g4. is_digit c) \<and> bytes_group r8 = Some g5)"
  unfolding status_tail_def lit_Some_iff exactly_Some_iff by auto

lemma status_tail_shape:
  assumes "status_tail r5 = Some (g4, g5)"
  shows "\<exists>rest. r5 = [dq] @ '' '' @ g4 @ '' '' @ g5 @ rest \<and> length g4 = 3 \<and>
           (\<forall>c\<in>set g4. is_digit c) \<and>
           (g5 = ''-'' \<or> (g5 \<noteq> [] \<and> (\<forall>c\<in>set g5. is_digit c)))"
proof -
  from assms obtain r8 where r8: "r5 = [dq, CHR '' ''] @ g4 @ '' '' @ r8" "length g4 = 3"
      "\<forall>c\<in>set g4. is_digit c" "bytes_group r8 = Some g5"
    unfolding status_tail_Some_iff by blast
  from bytes_group_shape[OF r8(4)] obtain rest where
    "r8 = g5 @ rest" "g5 = ''-'' \<or> (g5 \<noteq> [] \<and> (\<forall>c\<in>set g5. is_digit c))" by blast
  with r8 show ?thesis by (intro exI[of _ rest]) simp
qed

lemma request_tail_shape:
  assumes "request_tail r3 = Some (g3, g4, g5)"
  shows "\<exists>r5. r3 = ''] '' @ [dq] @ g3 @ r5 \<and> (\<forall>c\<in>set g3. any_char c) \<and>
           status_tail r5 = Some (g4, g5)"
proof -
  from assms obtain r4 n where r3: "r3 = [CHR '']'', CHR '' '', dq] @ r4"
    and n: "n \<le> count any_char r4" and g3: "g3 = take n r4"
    and st: "status_tail (drop n r4) = Some (g4, g5)"
    unfolding request_tail_Some_iff by blast
  from n g3 have "\<forall>c\<in>set g3. any_char c" by (simp add: count_le_iff)
  moreover have "r3 = ''] '' @ [dq] @ g3 @ drop n r4" using r3 g3 by simp
  ultimately show ?thesis using st by blast
qed

lemma timestamp_tail_shape:
  assumes "timestamp_tail r1 = Some (g2, g3, g4, g5)"
  shows "\<exists>r3. r1 = '' - - ['' @ g2 @ r3 \<and> (\<forall>c\<in>set g2. any_char c) \<and>
           request_tail r3 = Some (g3, g4, g5)"
proof -
  from assms obtain r2 n where r1: "r1 = '' - - ['' @ r2"
    and n: "n \<le> count any_char r2" and g2: "g2 = take n r2"
    and rq: "request_tail (drop n r2) = Some (g3, g4, g5)"
    unfolding timestamp_tail_Some_iff by blast
  from n g2 have "\<forall>c\<in>set g2. any_char c" by (simp add: count_le_iff)
  moreover have "r1 = '' - - ['' @ g2 @ drop n r2" using r1 g2 by simp
  ultimately show ?thesis using rq by blast
qed

lemma match_log_line_shape:
  assumes "match_log_line line = Some (g1, g2, g3, g4, g5)"
  shows "\<exists>rest.
        line = g1 @ '' - - ['' @ g2 @ ''] '' @ [dq] @ g3 @ [dq] @ '' '' @ g4 @ '' '' @ g5 @ rest \<and>
        g1 \<noteq> [] \<and> (\<forall>c\<in>set g1. non_space c) \<and>
        (\<forall>c\<in>set g2. any_char c) \<and>
        (\<forall>c\<in>set g3. any_char c) \<and>
        length g4 = 3 \<and> (\<forall>c\<in>set g4. is_digit c) \<and>
        (g5 = ''-'' \<or> (g5 \<noteq> [] \<and> (\<forall>c\<in>set g5. is_digit c)))"
proof -
  from assms have c: "1 \<le> count non_space line"
    and g1: "g1 = takeWhile non_space line"
    and tt: "timestamp_tail (dropWhile non_space line) = Some (g2, g3, g4, g5)"
    by (auto simp: match_log_line_eq split: if_splits)
  from c g1 have ne: "g1 \<noteq> []" by (auto simp: count_def)
  from g1 have ns: "\<forall>c\<in>set g1. non_space c" by (auto dest: set_takeWhileD)
  have l: "line = g1 @ dropWhile non_space line" using g1 by simp
  from timestamp_tail_shape[OF tt] obtain r3 where
    r3: "dropWhile non_space line = '' - - ['' @ g2 @ r3" "\<forall>c\<in>set g2. any_char c"
        "request_tail r3 = Some (g3, g4, g5)" by blast
  from request_tail_shape[OF r3(3)] obtain r5 where
    r5: "r3 = ''] '' @ [dq] @ g3 @ r5" "\<forall>c\<in>set g3. any_char c"
        "status_tail r5 = Some (g4, g5)" by blast
  from status_tail_shape[OF r5(3)] obtain rest where
    rest: "r5 = [dq] @ '' '' @ g4 @ '' '' @ g5 @ rest" "length g4 = 3"
          "\<forall>c\<in>set g4. is_digit c" "g5 = ''-'' \<or> (g5 \<noteq> [] \<and> (\<forall>c\<in>set g5. is_digit c))"
    by blast
  have "line = g1 @ '' - - ['' @ g2 @ ''] '' @ [dq] @ g3 @ [dq] @ '' '' @ g4 @ '' '' @ g5 @ rest"
    using l r3(1) r5(1) rest(1) by (metis append_assoc)
  with ne ns r3(2) r5(2) rest(2,3,4) show ?thesis by blast
qed

lemma bytes_group_complete:
  assumes "g5 = ''-'' \<or> (g5 \<noteq> [] \<and> (\<forall>c\<in>set g5. is_digit c))"
  shows "bytes_group (g5 @ rest) \<noteq> None"
proof (cases "g5 = ''-''")
  case True
  then show ?thesis by (simp add: bytes_group_eq)
next
  case False
  with assms obtain c cs where "g5 = c # cs" "is_digit c" by (cases g5) auto
  then show ?thesis by (simp add: bytes_group_eq)
qed

lemma conforms_match:
  assumes "conforms line"
  shows "match_log_line line \<noteq> None"
proof -
  from assms obtain host ts req st bt rest where
    line: "line = host @ '' - - ['' @ ts @ ''] '' @ [dq] @ req @ [dq] @ '' '' @ st @ '' '' @ bt @ rest"
    and host: "host \<noteq> []" "\<forall>c\<in>set host. non_space c"
    and ts: "\<forall>c\<in>set ts. any_char c" and req: "\<forall>c\<in>set req. any_char c"
    and st: "length st = 3" "\<forall>c\<in>set st. is_digit c"
    and bt: "bt = ''-'' \<or> (bt \<noteq> [] \<and> (\<forall>c\<in>set bt. is_digit c))"
    unfolding conforms_def by blast
  let ?r5 = "[dq, CHR '' ''] @ st @ '' '' @ (bt @ rest)"
  let ?r4 = "req @ ?r5"
  let ?r3 = "[CHR '']'', CHR '' '', dq] @ ?r4"
  let ?r2 = "ts @ ?r3"
  let ?r1 = "'' - - ['' @ ?r2"
  have "status_tail ?r5 \<noteq> None"
  proof
    assume "status_tail ?r5 = None"
    moreover from bytes_group_complete[OF bt, of rest] obtain g5 where
      "bytes_group (bt @ rest) = Some g5" by auto
    with st have "status_tail ?r5 = Some (st, g5)"
      unfolding status_tail_Some_iff by blast
    ultimately show False by simp
  qed
  moreover have "length req \<le> count any_char ?r4" using req by (simp add: count_le_iff)
  moreover have "drop (length req) ?r4 = ?r5" by simp
  ultimately have "request_tail ?r3 \<noteq> None"
    unfolding request_tail_None_iff by (metis same_append_eq)
  moreover have "length ts \<le> count any_char ?r2" using ts by (simp add: count_le_iff)
  moreover have "drop (length ts) ?r2 = ?r3" by simp
  ultimately have tt: "timestamp_tail ?r1 \<noteq> None"
    unfolding timestamp_tail_None_iff by (metis same_append_eq)
  have sp: "\<not> non_space CHR '' ''" by (simp add: non_space_def is_space_def)
  have l: "line = host @ ?r1" using line by simp
  have tw: "takeWhile non_space line = host" using host(2) sp
    unfolding l by (simp add: takeWhile_append2)
  have dw: "dropWhile non_space line = ?r1" using host(2) sp
    unfolding l by (simp add: dropWhile_append2)
  have "1 \<le> count non_space line" using tw host(1) by (cases host) (auto simp: count_def)
  with tw dw tt show ?thesis
    unfolding match_log_line_eq by (simp del: append.simps append_assoc)
qed

lemma match_conforms:
  assumes "match_log_line line \<noteq> None"
  shows "conforms line"
proof -
  from assms obtain g1 g2 g3 g4 g5 where "match_log_line line = Some (g1, g2, g3, g4, g5)"
    by auto
  from match_log_line_shape[OF this] show ?thesis unfolding conforms_def by blast
qed

section \<open>Facts about the parser and the ingestion loop\<close>

lemma foldl_digits_nonneg:
  "\<forall>c\<in>set s. is_digit c \<Longrightarrow> 0 \<le> a \<Longrightarrow> 0 \<le> foldl (\<lambda>a c. 10 * a + digit_val c) a s"
proof (induction s arbitrary: a)
  case Nil
  then show ?case by simp
next
  case (Cons c s)
  from Cons.prems have "0 \<le> digit_val c" by (simp add: is_digit_def digit_val_def Let_def)
  with Cons.prems have "0 \<le> 10 * a + digit_val c" by simp
  with Cons show ?case by simp
qed

lemma py_int_digits:
  assumes "s \<noteq> []" and "\<forall>c\<in>set s. is_digit c"
  shows "\<exists>n. py_int s = Inr n \<and> 0 \<le> n"
  using assms foldl_digits_nonneg[of s 0] by (simp add: py_int_def list_all_iff)

lemma parse_log_line_no_match:
  "match_log_line line = None \<Longrightarrow> parse_log_line line = Inr None"
  by (simp add: parse_log_line_def)

lemma parse_log_line_match:
  assumes "match_log_line line = Some (g1, g2, g3, g4, g5)"
  shows "\<exists>code n. py_int g4 = Inr code \<and> 0 \<le> n \<and>
           (if g5 = ''-'' then n = 0 else py_int g5 = Inr n) \<and>
           parse_log_line line =
             Inr (Some [(''host'', PStr g1), (''timestamp'', PStr g2), (''request'', PStr g3),
                        (''http_reply_code'', PInt code), (''bytes'', PInt n)])"
proof -
  from match_log_line_shape[OF assms] have g4: "length g4 = 3" "\<forall>c\<in>set g4. is_digit c"
    and g5: "g5 = ''-'' \<or> (g5 \<noteq> [] \<and> (\<forall>c\<in>set g5. is_digit c))" by blast+
  from g4 have "g4 \<noteq> []" by auto
  from py_int_digits[OF this g4(2)] obtain code where code: "py_int g4 = Inr code" by blast
  show ?thesis
  proof (cases "g5 = ''-''")
    case True
    with assms code show ?thesis by (simp add: parse_log_line_def)
  next
    case False
    with g5 have "g5 \<noteq> []" "\<forall>c\<in>set g5. is_digit c" by blast+
    from py_int_digits[OF this] obtain n where "py_int g5 = Inr n" "0 \<le> n" by blast
    with False assms code show ?thesis by (simp add: parse_log_line_def)
  qed
qed

lemma parse_log_line_None_iff: "parse_log_line line = Inr None \<longleftrightarrow> match_log_line line = None"
proof (cases "match_log_line line")
  case None
  then show ?thesis by (simp add: parse_log_line_no_match)
next
  case (Some m)
  obtain g1 g2 g3 g4 g5 where "m = (g1, g2, g3, g4, g5)" by (cases m) auto
  with Some parse_log_line_match[of line g1 g2 g3 g4 g5] show ?thesis by auto
qed

lemma ingest_append:
  "ingest acc (xs @ ys) = (case ingest acc xs of Inl e \<Rightarrow> Inl e | Inr acc' \<Rightarrow> ingest acc' ys)"
  by (induction xs arbitrary: acc) (auto split: sum.splits)

section \<open>Facts about the writer\<close>




section \<open>The parser on the documented example line\<close>

text \<open>
  C4: the line
  \<^verbatim>\<open>198.0.0.1 - - [01/Jul/1995:00:00:01 -0400] "GET /index.html HTTP/1.0" 200 1024\<close>
  is parsed into the dictionary with host \<^verbatim>\<open>198.0.0.1\<close>, the bracket contents as
  timestamp, the quote contents as request, reply code 200 and byte count 1024.
\<close>

theorem parse_log_line_example:
  "parse_log_line
     (''198.0.0.1 - - [01/Jul/1995:00:00:01 -0400] '' @ [dq] @
      ''GET /index.html HTTP/1.0'' @ [dq] @ '' 200 1024'') =
   Inr (Some [(''host'', PStr ''198.0.0.1''),
              (''timestamp'', PStr ''01/Jul/1995:00:00:01 -0400''),
              (''request'', PStr ''GET /index.html HTTP/1.0''),
              (''http_reply_code'', PInt 200),
              (''bytes'', PInt 1024)])"
  by code_simp


section \<open>The byte count\<close>

text \<open>
  C5: whenever the parser returns a dictionary, its \<^verbatim>\<open>bytes\<close> entry is an integer that is
  not negative, and it is 0 when the fifth group of the match (the byte token) is the
  single character \<^verbatim>\<open>-\<close>.
\<close>

theorem bytes_non_negative:
  assumes "parse_log_line line = Inr (Some d)"
  shows "(\<exists>n. map_of d ''bytes'' = Some (PInt n) \<and> 0 \<le> n) \<and>
         (group5 line = Some ''-'' \<longrightarrow> map_of d ''bytes'' = Some (PInt 0))"
proof -
  have "match_log_line line \<noteq> None"
  proof
    assume "match_log_line line = None"
    from parse_log_line_no_match[OF this] assms show False by simp
  qed
  then obtain m where "match_log_line line = Some m" by auto
  moreover obtain g1 g2 g3 g4 g5 where "m = (g1, g2, g3, g4, g5)" by (cases m) auto
  ultimately have m: "match_log_line line = Some (g1, g2, g3, g4, g5)" by simp
  from parse_log_line_match[OF m] assms obtain code n where
    n: "0 \<le> n" "if g5 = ''-'' then n = 0 else py_int g5 = Inr n"
    and d: "d = [(''host'', PStr g1), (''timestamp'', PStr g2), (''request'', PStr g3),
                 (''http_reply_code'', PInt code), (''bytes'', PInt n)]"
    by auto
  from d have b: "map_of d ''bytes'' = Some (PInt n)" by simp
  from m have "group5 line = Some g5" by (simp add: group5_def)
  with n b show ?thesis by auto
qed

theorem bytes_non_negative_witness:
  "parse_log_line
     (''198.0.0.1 - - [01/Jul/1995:00:00:01 -0400] '' @ [dq] @
      ''GET /index.html HTTP/1.0'' @ [dq] @ '' 200 -'') =
   Inr (Some [(''host'', PStr ''198.0.0.1''),
              (''timestamp'', PStr ''01/Jul/1995:00:00:01 -0400''),
              (''request'', PStr ''GET /index.html HTTP/1.0''),
              (''http_reply_code'', PInt 200),
              (''bytes'', PInt 0)]) \<and>
   group5 (''198.0.0.1 - - [01/Jul/1995:00:00:01 -0400] '' @ [dq] @
      ''GET /index.html HTTP/1.0'' @ [dq] @ '' 200 -'') = Some ''-'' \<and>
   map_of [(''host'', PStr ''198.0.0.1''),
              (''timestamp'', PStr ''01/Jul/1995:00:00:01 -0400''),
              (''request'', PStr ''GET /index.html HTTP/1.0''),
              (''http_reply_code'', PInt 200),
              (''bytes'', PInt 0)] ''bytes'' = Some (PInt 0)"
proof -
  let ?L = "''198.0.0.1 - - [01/Jul/1995:00:00:01 -0400] '' @ [dq] @
      ''GET /index.html HTTP/1.0'' @ [dq] @ '' 200 -''"
  let ?D = "[(''host'', PStr ''198.0.0.1''),
              (''timestamp'', PStr ''01/Jul/1995:00:00:01 -0400''),
              (''request'', PStr ''GET /index.html HTTP/1.0''),
              (''http_reply_code'', PInt 200),
              (''bytes'', PInt 0)]"
  have p: "parse_log_line ?L = Inr (Some ?D)" by code_simp
  have g: "group5 ?L = Some ''-''" by code_simp
  from bytes_non_negative[OF p] g have "map_of ?D ''bytes'' = Some (PInt 0)" by blast
  with p g show ?thesis by blast
qed

section \<open>Lines that do not have the documented shape\<close>

text \<open>
  C6: a line that does not have the documented shape makes the parser return \<^verbatim>\<open>None\<close>
  without raising, the loop body leaves \<^verbatim>\<open>parsed_data\<close> as it was, and the whole loop
  gives the same result as on the log without that line.
\<close>

theorem mismatch_dropped:
  assumes "\<not> conforms line"
  shows "parse_log_line line = Inr None \<and>
         ingest_line parsed_data line = Inr parsed_data \<and>
         ingest parsed_data (before @ line # after) = ingest parsed_data (before @ after)"
proof -
  from assms have "match_log_line line = None" using match_conforms[of line] by blast
  then have p: "parse_log_line line = Inr None" by (rule parse_log_line_no_match)
  then have s: "\<And>acc. ingest_line acc line = Inr acc" by (simp add: ingest_line_def)
  have "ingest parsed_data (before @ line # after) = ingest parsed_data (before @ after)"
    by (simp add: ingest_append s split: sum.splits)
  with p s show ?thesis by simp
qed

theorem mismatch_dropped_witness:
  "\<not> conforms ''local - index.html'' \<and>
   parse_log_line ''local - index.html'' = Inr None \<and>
   ingest_line [[(''host'', PStr ''h'')]] ''local - index.html'' = Inr [[(''host'', PStr ''h'')]] \<and>
   ingest [] ([] @ ''local - index.html'' # []) = ingest [] ([] @ [])"
proof -
  have "match_log_line ''local - index.html'' = None" by code_simp
  then have n: "\<not> conforms ''local - index.html''" using conforms_match by blast
  from mismatch_dropped[OF n, of "[[(''host'', PStr ''h'')]]" "[]" "[]"]
  have "parse_log_line ''local - index.html'' = Inr None"
    "ingest_line [[(''host'', PStr ''h'')]] ''local - index.html'' = Inr [[(''host'', PStr ''h'')]]"
    by blast+
  moreover from mismatch_dropped[OF n, of "[]" "[]" "[]"]
  have "ingest [] ([] @ ''local - index.html'' # []) = ingest [] ([] @ [])" by blast
  ultimately show ?thesis using n by blast
qed

section \<open>The parser never raises\<close>



section \<open>Text after the byte token\<close>




section \<open>The key of the two key-value stores\<close>




end
